theory Spec2Isabelle
  imports Main "HOL-Library.Word"
begin

section \<open>Deleting an element from an array/vector pair (C++/16 - Vectors/2)\<close>

text \<open>
  The class \<open>func\<close> of \<open>main.cpp\<close> keeps a \<open>vector<int>\<close>, the position last read from
  the console and a logical size that starts at 10. Its three member functions work on
  a raw \<open>int\<close> array owned by the caller and on the vector, and talk to \<open>cin\<close> and
  \<open>cout\<close>. The model passes all of that along explicitly.
\<close>

subsection \<open>Data\<close>

text \<open>\<open>int\<close> is a 32-bit two's complement value, \<open>size_t\<close> and \<open>unsigned long long\<close> are
  64-bit unsigned values; their arithmetic wraps around.\<close>

type_synonym cint = "32 word"
type_synonym size_t = "64 word"

text \<open>What is sent to \<open>cout\<close>: a string literal, an \<open>int\<close>, or \<open>endl\<close>.\<close>

datatype token = Text string | Number cint | Endl

text \<open>The private members of \<open>class func\<close>, with their default member initialisers
  (the member \<open>size\<close> is called \<open>size_f\<close> here).\<close>

record func =
  vector1 :: "cint list"
  position :: cint
  size_f :: size_t

text \<open>The object together with what its member functions reach from outside: the
  caller's array behind the parameter \<open>int arr[]\<close> (its length is the array's capacity),
  the integers that \<open>cin\<close> will still deliver, and everything written to \<open>cout\<close>.\<close>

record world = func +
  arr :: "cint list"
  cin :: "cint list"
  cout :: "token list"

text \<open>An index outside the array or outside the vector is undefined behaviour in C++.
  The model stops there and reports which container was overrun, together with the
  state reached when the invalid access was attempted.\<close>

datatype fault = ArrayOutOfBounds | VectorOutOfBounds

type_synonym result = "(fault \<times> world) + world"

text \<open>\<open>func functions;\<close> next to an array and the console: the vector is empty, the
  position is 0 and the size is 10.\<close>

definition construct :: "cint list \<Rightarrow> cint list \<Rightarrow> world" where
  "construct a src =
     \<lparr>vector1 = [], position = 0, size_f = 10, arr = a, cin = src, cout = []\<rparr>"

subsection \<open>\<open>input\<close>\<close>

text \<open>
  \<^verbatim>\<open>for (size_t i = 0; i < size; i++){ cin >> arr[i]; vector1.push_back(arr[i]); }\<close>

  \<open>cin >> arr[i]\<close> stores the next integer of the stream; once the stream is exhausted
  the extraction fails and leaves \<open>arr[i]\<close> as it was.
\<close>

function input_loop :: "size_t \<Rightarrow> world \<Rightarrow> result" where
  "input_loop i w =
     (if i < size_f w then
        (if unat i < length (arr w) then
           (let w1 = (case cin w of
                        [] \<Rightarrow> w
                      | x # rest \<Rightarrow> w\<lparr>arr := (arr w)[unat i := x], cin := rest\<rparr>);
                w2 = w1\<lparr>vector1 := vector1 w1 @ [arr w1 ! unat i]\<rparr>
            in input_loop (i + 1) w2)
         else Inl (ArrayOutOfBounds, w))
      else Inr w)"
  by pat_completeness auto

termination
  by (relation "measure (\<lambda>(i, w). unat (size_f w) - unat i)")
     (simp, (clarsimp split: list.splits; unat_arith))

definition input :: "world \<Rightarrow> result" where
  "input w = input_loop 0 w"

subsection \<open>\<open>del_elem\<close>\<close>

text \<open>
  \<^verbatim>\<open>for (size_t i = position; i < size-1; i++){ arr[i] = arr[i+1]; vector1[i] = vector1[i+1]; }\<close>

  \<open>size-1\<close> is computed on \<open>unsigned long long\<close>, so it is \<open>2^64 - 1\<close> when the size is 0.
\<close>

function del_loop :: "size_t \<Rightarrow> world \<Rightarrow> result" where
  "del_loop i w =
     (if i < size_f w - 1 then
        (if unat i < length (arr w) \<and> unat (i + 1) < length (arr w) then
           (let w1 = w\<lparr>arr := (arr w)[unat i := arr w ! unat (i + 1)]\<rparr>
            in if unat i < length (vector1 w1) \<and> unat (i + 1) < length (vector1 w1) then
                 del_loop (i + 1)
                   (w1\<lparr>vector1 := (vector1 w1)[unat i := vector1 w1 ! unat (i + 1)]\<rparr>)
               else Inl (VectorOutOfBounds, w1))
         else Inl (ArrayOutOfBounds, w))
      else Inr w)"
  by pat_completeness auto
termination
  by (relation "measure (\<lambda>(i, w). unat (size_f w - 1) - unat i)")
     (simp, (clarsimp; unat_arith))

text \<open>
  The prompt, \<open>cin >> position\<close> (the position keeps its old value when the stream is
  exhausted), the conversion \<open>size_t i = position\<close> (sign extension), the loop and
  \<open>size--\<close>.
\<close>

definition del_elem :: "world \<Rightarrow> result" where
  "del_elem w =
     (let w1 = w\<lparr>cout := cout w @ [Text ''Select element to delete.'', Endl]\<rparr>;
          w2 = (case cin w1 of
                  [] \<Rightarrow> w1
                | x # rest \<Rightarrow> w1\<lparr>position := x, cin := rest\<rparr>)
      in case del_loop (scast (position w2)) w2 of
           Inl e \<Rightarrow> Inl e
         | Inr w3 \<Rightarrow> Inr (w3\<lparr>size_f := size_f w3 - 1\<rparr>))"

subsection \<open>\<open>output\<close>\<close>

text \<open>
  The member function \<open>output\<close> is called \<open>output_f\<close> here.

  \<^verbatim>\<open>for (size_t i = 0; i < size; i++) { cout << "Array: " << arr[i]; }\<close> and the same
  loop over the vector, each after its headline.
\<close>

function output_arr :: "size_t \<Rightarrow> world \<Rightarrow> result" where
  "output_arr i w =
     (if i < size_f w then
        (if unat i < length (arr w) then
           output_arr (i + 1) (w\<lparr>cout := cout w @ [Text ''Array: '', Number (arr w ! unat i)]\<rparr>)
         else Inl (ArrayOutOfBounds, w))
      else Inr w)"
  by pat_completeness auto
termination
  by (relation "measure (\<lambda>(i, w). unat (size_f w) - unat i)")
     (simp, (clarsimp; unat_arith))

function output_vec :: "size_t \<Rightarrow> world \<Rightarrow> result" where
  "output_vec i w =
     (if i < size_f w then
        (if unat i < length (vector1 w) then
           output_vec (i + 1)
             (w\<lparr>cout := cout w @ [Text ''Vectyor:'', Number (vector1 w ! unat i)]\<rparr>)
         else Inl (VectorOutOfBounds, w))
      else Inr w)"
  by pat_completeness auto
termination
  by (relation "measure (\<lambda>(i, w). unat (size_f w) - unat i)")
     (simp, (clarsimp; unat_arith))

definition output_f :: "world \<Rightarrow> result" where
  "output_f w =
     (case output_arr 0 (w\<lparr>cout := cout w @ [Text ''Array:'', Endl]\<rparr>) of
        Inl e \<Rightarrow> Inl e
      | Inr w1 \<Rightarrow> output_vec 0 (w1\<lparr>cout := cout w1 @ [Text ''Vector:'', Endl]\<rparr>))"

subsection \<open>Sequences of calls\<close>

text \<open>A client of the class calls its three member functions in some order on the
  same array, as \<open>main\<close> does with \<open>input\<close>, \<open>del_elem\<close>, \<open>output\<close>. A run stops at the
  first call that leaves the array or the vector.\<close>

datatype call = Input | Del_elem | Output

fun exec :: "call \<Rightarrow> world \<Rightarrow> result" where
  "exec Input w = input w"
| "exec Del_elem w = del_elem w"
| "exec Output w = output_f w"

fun run :: "call list \<Rightarrow> world \<Rightarrow> result" where
  "run [] w = Inr w"
| "run (c # cs) w = (case exec c w of Inl e \<Rightarrow> Inl e | Inr w' \<Rightarrow> run cs w')"

text \<open>Along a run, no \<open>del_elem\<close> is called while the size is 0.\<close>

fun removals_nonempty :: "call list \<Rightarrow> world \<Rightarrow> bool" where
  "removals_nonempty [] w = True"
| "removals_nonempty (c # cs) w =
     ((c = Del_elem \<longrightarrow> size_f w \<noteq> 0) \<and>
      (case exec c w of Inl e \<Rightarrow> True | Inr w' \<Rightarrow> removals_nonempty cs w'))"

subsection \<open>Vocabulary of the properties\<close>

text \<open>The logical length stays within the capacity of the array: \<open>0 \<le> size \<le> capacity\<close>
  (the lower bound holds for every unsigned value).\<close>

definition size_ok :: "world \<Rightarrow> bool" where
  "size_ok w \<longleftrightarrow> unat (size_f w) \<le> length (arr w)"

text \<open>Both containers hold at least \<open>size\<close> elements.\<close>

definition fits :: "world \<Rightarrow> bool" where
  "fits w \<longleftrightarrow> unat (size_f w) \<le> length (arr w) \<and> unat (size_f w) \<le> length (vector1 w)"

text \<open>The logical contents, \<open>elements[0..size)\<close>, of the array and of the vector.\<close>

definition snapshot_arr :: "world \<Rightarrow> cint list" where
  "snapshot_arr w = take (unat (size_f w)) (arr w)"

definition snapshot_vec :: "world \<Rightarrow> cint list" where
  "snapshot_vec w = take (unat (size_f w)) (vector1 w)"

text \<open>The array and the vector agree on every index below the size.\<close>

definition lockstep :: "world \<Rightarrow> bool" where
  "lockstep w \<longleftrightarrow> (\<forall>i < unat (size_f w). arr w ! i = vector1 w ! i)"

text \<open>What \<open>output\<close> sends to \<open>cout\<close> for given logical contents.\<close>

definition printed :: "string \<Rightarrow> cint list \<Rightarrow> token list" where
  "printed label xs = concat (map (\<lambda>x. [Text label, Number x]) xs)"

definition shown :: "world \<Rightarrow> token list" where
  "shown w = [Text ''Array:'', Endl] @ printed ''Array: '' (snapshot_arr w)
           @ [Text ''Vector:'', Endl] @ printed ''Vectyor:'' (snapshot_vec w)"

text \<open>The effect of the shifting loop started at index \<open>p\<close> on a container whose first
  \<open>n\<close> elements are the logical ones: positions \<open>p, \<dots>, n - 2\<close> take the value of their
  right neighbour, every other position keeps its value.\<close>

definition shift :: "nat \<Rightarrow> nat \<Rightarrow> 'a list \<Rightarrow> 'a list" where
  "shift p n xs = map (\<lambda>j. if p \<le> j \<and> Suc j < n then xs ! Suc j else xs ! j) [0..<length xs]"

subsection \<open>Concrete states\<close>

text \<open>The state after \<open>input\<close> has read \<open>5 3 8 1 9 2 7 4 6 0\<close> into a ten-element
  array, with \<open>src\<close> still to come from the console.\<close>

definition populated :: "cint list \<Rightarrow> world" where
  "populated src =
     \<lparr>vector1 = [5, 3, 8, 1, 9, 2, 7, 4, 6, 0], position = 0, size_f = 10,
      arr = [5, 3, 8, 1, 9, 2, 7, 4, 6, 0], cin = src, cout = []\<rparr>"

text \<open>The same containers once the size has been counted down to 0.\<close>

definition drained :: "cint list \<Rightarrow> world" where
  "drained src =
     \<lparr>vector1 = [5, 3, 8, 1, 9, 2, 7, 4, 6, 0], position = 0, size_f = 0,
      arr = [5, 3, 8, 1, 9, 2, 7, 4, 6, 0], cin = src, cout = []\<rparr>"

text \<open>A two-element sequence.\<close>

definition pair_world :: "cint list \<Rightarrow> world" where
  "pair_world src =
     \<lparr>vector1 = [7, 9], position = 0, size_f = 2, arr = [7, 9], cin = src, cout = []\<rparr>"

section \<open>Auxiliary facts\<close>

declare input_loop.simps [simp del] del_loop.simps [simp del]
  output_arr.simps [simp del] output_vec.simps [simp del]

subsection \<open>Machine integers\<close>

lemma unat_succ_below: "(i :: size_t) < n \<Longrightarrow> unat (i + 1) = Suc (unat i)"
  by unat_arith

lemma pred_le: "(n :: nat) \<le> a \<Longrightarrow> n - Suc 0 \<le> a"
  by arith

lemma unat_pred: "(n :: size_t) \<noteq> 0 \<Longrightarrow> unat (n - 1) = unat n - 1"
  by (simp add: unat_minus_one)

lemma uint_pred: "(n :: size_t) \<noteq> 0 \<Longrightarrow> uint (n - 1) = uint n - 1"
proof -
  assume "n \<noteq> 0"
  then have "uint n \<noteq> 0" by (simp add: uint_0_iff)
  moreover have "0 \<le> uint n" by (rule uint_nonnegative)
  ultimately have "1 \<le> uint n" by linarith
  then have "uint (1 :: size_t) \<le> uint n" by simp
  then show ?thesis
    using uint_sub_lem [where x = n and y = 1] by simp
qed

lemma sint_scast_up: "sint (scast (p :: cint) :: size_t) = sint p"
  by (rule sint_up_scast) (simp add: is_up)

text \<open>\<open>size_t i = position\<close> for a position that is not negative, and for a negative one.\<close>

lemma scast_nonneg:
  assumes "0 \<le> sint (p :: cint)"
  shows "unat (scast p :: size_t) = nat (sint p)"
proof -
  have "sint p < 2 ^ 31" using sint_lt [of p] by simp
  then have "sint p < 2 ^ 64" by simp
  have "uint (scast p :: size_t) = take_bit 64 (sint p)"
    using uint_sint [of "scast p :: size_t"] by (simp add: sint_scast_up)
  also have "\<dots> = sint p"
    using assms \<open>sint p < 2 ^ 64\<close> by (simp add: take_bit_int_eq_self)
  finally show ?thesis by (simp add: unat_eq_nat_uint)
qed

lemma scast_neg:
  assumes "sint (p :: cint) < 0"
  shows "uint (scast p :: size_t) = 2 ^ 64 + sint p"
proof -
  have lo: "- (2 ^ 31) \<le> sint p" using sint_ge [of p] by simp
  have "uint (scast p :: size_t) = take_bit 64 (sint p)"
    using uint_sint [of "scast p :: size_t"] by (simp add: sint_scast_up)
  also have "\<dots> = sint p mod 2 ^ 64"
    by (simp add: take_bit_eq_mod)
  also have "\<dots> = (sint p + 2 ^ 64) mod 2 ^ 64"
    by simp
  also have "\<dots> = sint p + 2 ^ 64"
    using lo assms by (intro mod_pos_pos_trivial) simp_all
  finally show ?thesis by simp
qed

subsection \<open>The shifting loop\<close>

lemma length_shift [simp]: "length (shift p n xs) = length xs"
  by (simp add: shift_def)

lemma nth_shift:
  "j < length xs \<Longrightarrow> shift p n xs ! j = (if p \<le> j \<and> Suc j < n then xs ! Suc j else xs ! j)"
  by (simp add: shift_def)

lemma shift_idle: "n \<le> Suc p \<Longrightarrow> shift p n xs = xs"
  by (rule nth_equalityI) (auto simp: nth_shift)

lemma shift_step:
  assumes "Suc p < n" "n \<le> length xs"
  shows "shift (Suc p) n (xs[p := xs ! Suc p]) = shift p n xs"
proof (rule nth_equalityI)
  show "length (shift (Suc p) n (xs[p := xs ! Suc p])) = length (shift p n xs)" by simp
next
  fix j assume "j < length (shift (Suc p) n (xs[p := xs ! Suc p]))"
  then have j: "j < length xs" by simp
  show "shift (Suc p) n (xs[p := xs ! Suc p]) ! j = shift p n xs ! j"
    using j assms by (auto simp: nth_shift nth_list_update)
qed

text \<open>Cut to the new logical length, the shifted container is the old logical
  contents without index \<open>k\<close>.\<close>

lemma take_shift:
  assumes "k < n" "n \<le> length xs"
  shows "take (n - Suc 0) (shift k n xs) = take k xs @ drop (Suc k) (take n xs)"
proof (rule nth_equalityI)
  show "length (take (n - Suc 0) (shift k n xs)) = length (take k xs @ drop (Suc k) (take n xs))"
    using assms by simp
next
  fix j assume "j < length (take (n - Suc 0) (shift k n xs))"
  then have j: "j < n - 1" by simp
  then show "take (n - Suc 0) (shift k n xs) ! j = (take k xs @ drop (Suc k) (take n xs)) ! j"
    using assms by (auto simp: nth_shift nth_append)
qed

lemma del_loop_idle: "\<not> i < size_f w - 1 \<Longrightarrow> del_loop i w = Inr w"
  by (simp add: del_loop.simps [of i w])

lemma del_loop_shift:
  assumes "size_f w \<noteq> 0" "unat (size_f w) \<le> length (arr w)"
    "unat (size_f w) \<le> length (vector1 w)"
  shows "del_loop i w = Inr (w\<lparr>arr := shift (unat i) (unat (size_f w)) (arr w),
                              vector1 := shift (unat i) (unat (size_f w)) (vector1 w)\<rparr>)"
  using assms
proof (induction i w rule: del_loop.induct)
  case (1 i w)
  let ?n = "unat (size_f w)"
  show ?case
  proof (cases "i < size_f w - 1")
    case False
    then have "?n \<le> Suc (unat i)"
      using "1.prems"(1) by (simp add: word_less_nat_alt unat_pred)
    then show ?thesis
      using False by (simp add: del_loop_idle shift_idle)
  next
    case True
    then have lt: "Suc (unat i) < ?n"
      using "1.prems"(1) by (simp add: word_less_nat_alt unat_pred)
    have su: "unat (i + 1) = Suc (unat i)"
      using True by (rule unat_succ_below)
    have inb: "unat i < length (arr w) \<and> unat (i + 1) < length (arr w)"
      "unat i < length (vector1 w) \<and> unat (i + 1) < length (vector1 w)"
      using lt su "1.prems" by simp_all
    let ?w1 = "w\<lparr>arr := (arr w)[unat i := arr w ! unat (i + 1)]\<rparr>"
    let ?w2 = "?w1\<lparr>vector1 := (vector1 ?w1)[unat i := vector1 ?w1 ! unat (i + 1)]\<rparr>"
    have "del_loop i w = del_loop (i + 1) ?w2"
      using True inb by (simp add: del_loop.simps [of i w])
    also have "\<dots> = Inr (?w2\<lparr>arr := shift (unat (i + 1)) (unat (size_f ?w2)) (arr ?w2),
                              vector1 := shift (unat (i + 1)) (unat (size_f ?w2)) (vector1 ?w2)\<rparr>)"
      using "1.IH" [OF True inb(1) refl _ ] inb "1.prems" by simp
    also have "\<dots> = Inr (w\<lparr>arr := shift (unat i) ?n (arr w),
                              vector1 := shift (unat i) ?n (vector1 w)\<rparr>)"
      using lt "1.prems" by (simp add: su shift_step)
    finally show ?thesis .
  qed
qed

subsection \<open>\<open>del_elem\<close> as a whole\<close>

lemma del_elem_idle:
  assumes "cin w = p # rest" "\<not> scast p < size_f w - 1"
  shows "del_elem w =
           Inr (w\<lparr>cout := cout w @ [Text ''Select element to delete.'', Endl],
                  position := p, cin := rest, size_f := size_f w - 1\<rparr>)"
  using assms by (simp add: del_elem_def Let_def del_loop_idle)

lemma del_elem_shift:
  assumes "size_f w \<noteq> 0" "fits w" "cin w = p # rest"
  shows "del_elem w =
           Inr (w\<lparr>cout := cout w @ [Text ''Select element to delete.'', Endl],
                  position := p, cin := rest,
                  arr := shift (unat (scast p :: size_t)) (unat (size_f w)) (arr w),
                  vector1 := shift (unat (scast p :: size_t)) (unat (size_f w)) (vector1 w),
                  size_f := size_f w - 1\<rparr>)"
proof -
  let ?w2 = "w\<lparr>cout := cout w @ [Text ''Select element to delete.'', Endl],
               position := p, cin := rest\<rparr>"
  have "del_loop (scast p) ?w2 =
          Inr (?w2\<lparr>arr := shift (unat (scast p :: size_t)) (unat (size_f ?w2)) (arr ?w2),
                     vector1 := shift (unat (scast p :: size_t)) (unat (size_f ?w2)) (vector1 ?w2)\<rparr>)"
    using assms by (intro del_loop_shift) (simp_all add: fits_def)
  then show ?thesis
    using assms(3) by (simp add: del_elem_def Let_def)
qed

lemma del_elem_valid_step:
  assumes "fits w" and "cin w = p # rest" and "0 \<le> sint p" and "sint p < uint (size_f w)"
  shows "\<exists>w'. del_elem w = Inr w' \<and> fits w' \<and> unat (size_f w') = unat (size_f w) - 1
           \<and> cin w' = rest"
proof -
  have "uint (size_f w) \<noteq> 0" using assms(3,4) by linarith
  then have nz: "size_f w \<noteq> 0" by (simp add: uint_0_iff)
  show ?thesis
    using del_elem_shift [OF nz assms(1,2)] assms(1) nz
    by (simp add: fits_def unat_pred pred_le)
qed

text \<open>On a non-empty sequence the guard \<open>i < size - 1\<close> is false from the start for
  every position outside \<open>[0, size - 1)\<close>; \<open>del_elem\<close> then returns with the size
  decremented and both containers as they were.\<close>

lemma guard_false_outside:
  assumes "size_f w \<noteq> 0" and "unat (size_f w) \<le> length (arr w)" and "length (arr w) < 2 ^ 61"
    and "sint (p :: cint) < 0 \<or> uint (size_f w) - 1 \<le> sint p"
  shows "\<not> scast p < size_f w - 1"
proof -
  have u: "uint (size_f w - 1) = uint (size_f w) - 1"
    using assms(1) by (rule uint_pred)
  have "uint (size_f w - 1) \<le> uint (scast p :: size_t)"
  proof (cases "sint p < 0")
    case True
    then have "uint (scast p :: size_t) = 2 ^ 64 + sint p" by (rule scast_neg)
    moreover have "- (2 ^ 31) \<le> sint p" using sint_ge [of p] by simp
    moreover have "unat (size_f w) < 2 ^ 61"
      using assms(2,3) by (rule le_less_trans)
    then have "int (unat (size_f w)) < int (2 ^ 61)"
      by (simp only: of_nat_less_iff)
    then have "uint (size_f w) < 2 ^ 61" by simp
    ultimately show ?thesis using u by simp
  next
    case False
    then have ge: "0 \<le> sint p" "uint (size_f w) - 1 \<le> sint p"
      using assms(4) by auto
    have "unat (scast p :: size_t) = nat (sint p)" using ge(1) by (rule scast_nonneg)
    then have "int (unat (scast p :: size_t)) = sint p" using ge(1) by simp
    then have "uint (scast p :: size_t) = sint p" by simp
    then show ?thesis using ge(2) u by simp
  qed
  then show ?thesis
    by (simp add: word_less_def)
qed

lemma del_elem_on_nonempty:
  assumes "size_f w \<noteq> 0" and "fits w" and "length (arr w) < 2 ^ 61" and "cin w = p # rest"
  shows "\<exists>w'. del_elem w = Inr w' \<and> size_f w' = size_f w - 1
           \<and> (sint p < 0 \<or> uint (size_f w) - 1 \<le> sint p
                \<longrightarrow> arr w' = arr w \<and> vector1 w' = vector1 w)"
proof (cases "sint p < 0 \<or> uint (size_f w) - 1 \<le> sint p")
  case True
  have "unat (size_f w) \<le> length (arr w)" using assms(2) by (simp add: fits_def)
  with assms(1) have "\<not> scast p < size_f w - 1"
    using assms(3) True by (rule guard_false_outside)
  with assms(4) show ?thesis by (simp add: del_elem_idle)
next
  case False
  then show ?thesis using del_elem_shift [OF assms(1,2,4)] by simp
qed

lemma lockstep_shift:
  assumes "lockstep w" "fits w" "size_f w \<noteq> 0"
  shows "\<forall>i < unat (size_f w) - 1.
           shift k (unat (size_f w)) (arr w) ! i = shift k (unat (size_f w)) (vector1 w) ! i"
  using assms by (auto simp: lockstep_def fits_def nth_shift)

subsection \<open>The reading loop\<close>

lemma input_loop_fill:
  assumes "cin w = src @ rest"
    and "unat i + length src = min (unat (size_f w)) (length (arr w))"
  shows "input_loop i w =
           (let w' = w\<lparr>arr := take (unat i) (arr w) @ src @ drop (unat i + length src) (arr w),
                        cin := rest, vector1 := vector1 w @ src\<rparr>
            in if unat (size_f w) \<le> length (arr w) then Inr w' else Inl (ArrayOutOfBounds, w'))"
  using assms
proof (induction src arbitrary: i w)
  case Nil
  show ?case
  proof (cases "unat (size_f w) \<le> length (arr w)")
    case True
    then have "\<not> i < size_f w"
      using Nil.prems(2) by (simp add: word_less_nat_alt)
    then show ?thesis
      using True Nil.prems(1) by (simp add: input_loop.simps [of i w])
  next
    case False
    then have "i < size_f w" "\<not> unat i < length (arr w)"
      using Nil.prems(2) by (simp_all add: word_less_nat_alt)
    then show ?thesis
      using False Nil.prems(1) by (simp add: input_loop.simps [of i w])
  qed
next
  case (Cons x src)
  have lt: "i < size_f w" and inb: "unat i < length (arr w)"
    using Cons.prems(2) by (simp_all add: word_less_nat_alt)
  have su: "unat (i + 1) = Suc (unat i)"
    using lt by (rule unat_succ_below)
  let ?w2 = "w\<lparr>arr := (arr w)[unat i := x], cin := src @ rest, vector1 := vector1 w @ [x]\<rparr>"
  have "input_loop i w = input_loop (i + 1) ?w2"
    using lt inb Cons.prems(1) by (simp add: input_loop.simps [of i w])
  also have "\<dots> =
      (let w' = ?w2\<lparr>arr := take (unat (i + 1)) (arr ?w2) @ src
                             @ drop (unat (i + 1) + length src) (arr ?w2),
                      cin := rest, vector1 := vector1 ?w2 @ src\<rparr>
       in if unat (size_f ?w2) \<le> length (arr ?w2) then Inr w' else Inl (ArrayOutOfBounds, w'))"
    using Cons.prems(2) by (intro Cons.IH) (simp_all add: su)
  also have "\<dots> =
      (let w' = w\<lparr>arr := take (unat i) (arr w) @ (x # src)
                           @ drop (unat i + length (x # src)) (arr w),
                    cin := rest, vector1 := vector1 w @ x # src\<rparr>
       in if unat (size_f w) \<le> length (arr w) then Inr w' else Inl (ArrayOutOfBounds, w'))"
    using inb by (simp add: su Let_def take_Suc_conv_app_nth)
  finally show ?case .
qed

lemma input_loop_frame:
  "input_loop i w = Inr w' \<Longrightarrow> size_f w' = size_f w \<and> length (arr w') = length (arr w)"
proof (induction i w rule: input_loop.induct)
  case (1 i w)
  show ?case
  proof (cases "i < size_f w \<and> unat i < length (arr w)")
    case True
    let ?w1 = "case cin w of [] \<Rightarrow> w | x # rest \<Rightarrow> w\<lparr>arr := (arr w)[unat i := x], cin := rest\<rparr>"
    let ?w2 = "?w1\<lparr>vector1 := vector1 ?w1 @ [arr ?w1 ! unat i]\<rparr>"
    have "input_loop (i + 1) ?w2 = Inr w'"
      using True "1.prems" by (simp add: input_loop.simps [of i w] Let_def)
    then have "size_f w' = size_f ?w2 \<and> length (arr w') = length (arr ?w2)"
      using True by (intro "1.IH" [OF _ _ refl refl]) simp_all
    then show ?thesis by (simp split: list.splits)
  next
    case False
    then show ?thesis
      using "1.prems" by (auto simp: input_loop.simps [of i w] split: if_splits)
  qed
qed

lemma input_loop_lockstep:
  assumes "unat (size_f w) \<le> length (arr w)"
  shows "\<exists>w'. input_loop i w = Inr w'
           \<and> take (unat i) (arr w') = take (unat i) (arr w)
           \<and> vector1 w' = vector1 w @ drop (unat i) (take (unat (size_f w)) (arr w'))"
  using assms
proof (induction i w rule: input_loop.induct)
  case (1 i w)
  let ?n = "unat (size_f w)"
  show ?case
  proof (cases "i < size_f w")
    case False
    then have "?n \<le> unat i" by (simp add: word_less_nat_alt)
    then show ?thesis
      using False by (simp add: input_loop.simps [of i w])
  next
    case True
    then have lt: "unat i < ?n" by (simp add: word_less_nat_alt)
    then have inb: "unat i < length (arr w)" using "1.prems" by simp
    have su: "unat (i + 1) = Suc (unat i)"
      using True by (rule unat_succ_below)
    let ?w1 = "case cin w of [] \<Rightarrow> w | x # rest \<Rightarrow> w\<lparr>arr := (arr w)[unat i := x], cin := rest\<rparr>"
    let ?w2 = "?w1\<lparr>vector1 := vector1 ?w1 @ [arr ?w1 ! unat i]\<rparr>"
    have w1: "size_f ?w1 = size_f w" "length (arr ?w1) = length (arr w)"
      "vector1 ?w1 = vector1 w" "take (unat i) (arr ?w1) = take (unat i) (arr w)"
      by (simp_all split: list.splits)
    have step: "input_loop i w = input_loop (i + 1) ?w2"
      using True inb by (simp add: input_loop.simps [of i w] Let_def)
    have "\<exists>w'. input_loop (i + 1) ?w2 = Inr w'
           \<and> take (unat (i + 1)) (arr w') = take (unat (i + 1)) (arr ?w2)
           \<and> vector1 w' = vector1 ?w2 @ drop (unat (i + 1)) (take (unat (size_f ?w2)) (arr w'))"
      using "1.prems" w1 by (intro "1.IH" [OF True inb refl refl]) simp
    then obtain w' where w': "input_loop (i + 1) ?w2 = Inr w'"
      "take (Suc (unat i)) (arr w') = take (Suc (unat i)) (arr ?w1)"
      "vector1 w' = vector1 w @ [arr ?w1 ! unat i] @ drop (Suc (unat i)) (take ?n (arr w'))"
      using w1 by (auto simp: su)
    have len: "length (arr w') = length (arr w)"
      using input_loop_frame [OF w'(1)] w1 by simp
    have "take (Suc (unat i)) (arr w') ! unat i = take (Suc (unat i)) (arr ?w1) ! unat i"
      using w'(2) by simp
    then have nth: "arr w' ! unat i = arr ?w1 ! unat i" by simp
    have "take (unat i) (take (Suc (unat i)) (arr w')) = take (unat i) (take (Suc (unat i)) (arr ?w1))"
      using w'(2) by simp
    then have tk: "take (unat i) (arr w') = take (unat i) (arr w)"
      using w1(4) by (simp add: min_def)
    have "unat i < length (take ?n (arr w'))"
      using lt inb len by simp
    then have "drop (unat i) (take ?n (arr w')) =
        take ?n (arr w') ! unat i # drop (Suc (unat i)) (take ?n (arr w'))"
      by (rule Cons_nth_drop_Suc [symmetric])
    then have "vector1 w' = vector1 w @ drop (unat i) (take ?n (arr w'))"
      using w'(3) nth lt by simp
    then show ?thesis using step w'(1) tk by simp
  qed
qed

subsection \<open>The printing loops\<close>

lemma printed_Cons: "printed l (x # xs) = Text l # Number x # printed l xs"
  by (simp add: printed_def)

lemma printed_Nil: "printed l [] = []"
  by (simp add: printed_def)

lemma output_arr_prints:
  assumes "unat (size_f w) \<le> length (arr w)"
  shows "output_arr i w =
           Inr (w\<lparr>cout := cout w @ printed ''Array: '' (drop (unat i) (snapshot_arr w))\<rparr>)"
  using assms
proof (induction i w rule: output_arr.induct)
  case (1 i w)
  let ?n = "unat (size_f w)"
  show ?case
  proof (cases "i < size_f w")
    case False
    then have "?n \<le> unat i" by (simp add: word_less_nat_alt)
    then show ?thesis
      using False by (simp add: output_arr.simps [of i w] snapshot_arr_def printed_Nil)
  next
    case True
    then have lt: "unat i < ?n" by (simp add: word_less_nat_alt)
    then have inb: "unat i < length (arr w)" using "1.prems" by simp
    have su: "unat (i + 1) = Suc (unat i)"
      using True by (rule unat_succ_below)
    let ?w1 = "w\<lparr>cout := cout w @ [Text ''Array: '', Number (arr w ! unat i)]\<rparr>"
    have "unat i < length (snapshot_arr w)"
      using lt inb by (simp add: snapshot_arr_def)
    then have "drop (unat i) (snapshot_arr w) =
        snapshot_arr w ! unat i # drop (Suc (unat i)) (snapshot_arr w)"
      by (rule Cons_nth_drop_Suc [symmetric])
    moreover have "snapshot_arr w ! unat i = arr w ! unat i"
      using lt by (simp add: snapshot_arr_def)
    ultimately have dr: "printed ''Array: '' (drop (unat i) (snapshot_arr w)) =
        [Text ''Array: '', Number (arr w ! unat i)]
        @ printed ''Array: '' (drop (Suc (unat i)) (snapshot_arr w))"
      by (simp add: printed_Cons)
    have "output_arr i w = output_arr (i + 1) ?w1"
      using True inb by (simp add: output_arr.simps [of i w])
    also have "\<dots> =
        Inr (?w1\<lparr>cout := cout ?w1 @ printed ''Array: '' (drop (unat (i + 1)) (snapshot_arr ?w1))\<rparr>)"
      using "1.prems" by (intro "1.IH" [OF True inb]) simp
    also have "\<dots> = Inr (w\<lparr>cout := cout w @ printed ''Array: '' (drop (unat i) (snapshot_arr w))\<rparr>)"
      by (simp add: su dr [unfolded snapshot_arr_def] snapshot_arr_def)
    finally show ?thesis .
  qed
qed

lemma output_vec_prints:
  assumes "unat (size_f w) \<le> length (vector1 w)"
  shows "output_vec i w =
           Inr (w\<lparr>cout := cout w @ printed ''Vectyor:'' (drop (unat i) (snapshot_vec w))\<rparr>)"
  using assms
proof (induction i w rule: output_vec.induct)
  case (1 i w)
  let ?n = "unat (size_f w)"
  show ?case
  proof (cases "i < size_f w")
    case False
    then have "?n \<le> unat i" by (simp add: word_less_nat_alt)
    then show ?thesis
      using False by (simp add: output_vec.simps [of i w] snapshot_vec_def printed_Nil)
  next
    case True
    then have lt: "unat i < ?n" by (simp add: word_less_nat_alt)
    then have inb: "unat i < length (vector1 w)" using "1.prems" by simp
    have su: "unat (i + 1) = Suc (unat i)"
      using True by (rule unat_succ_below)
    let ?w1 = "w\<lparr>cout := cout w @ [Text ''Vectyor:'', Number (vector1 w ! unat i)]\<rparr>"
    have "unat i < length (snapshot_vec w)"
      using lt inb by (simp add: snapshot_vec_def)
    then have "drop (unat i) (snapshot_vec w) =
        snapshot_vec w ! unat i # drop (Suc (unat i)) (snapshot_vec w)"
      by (rule Cons_nth_drop_Suc [symmetric])
    moreover have "snapshot_vec w ! unat i = vector1 w ! unat i"
      using lt by (simp add: snapshot_vec_def)
    ultimately have dr: "printed ''Vectyor:'' (drop (unat i) (snapshot_vec w)) =
        [Text ''Vectyor:'', Number (vector1 w ! unat i)]
        @ printed ''Vectyor:'' (drop (Suc (unat i)) (snapshot_vec w))"
      by (simp add: printed_Cons)
    have "output_vec i w = output_vec (i + 1) ?w1"
      using True inb by (simp add: output_vec.simps [of i w])
    also have "\<dots> =
        Inr (?w1\<lparr>cout := cout ?w1 @ printed ''Vectyor:'' (drop (unat (i + 1)) (snapshot_vec ?w1))\<rparr>)"
      using "1.prems" by (intro "1.IH" [OF True inb]) simp
    also have "\<dots> = Inr (w\<lparr>cout := cout w @ printed ''Vectyor:'' (drop (unat i) (snapshot_vec w))\<rparr>)"
      by (simp add: su dr [unfolded snapshot_vec_def] snapshot_vec_def)
    finally show ?thesis .
  qed
qed

lemma output_f_shown:
  assumes "fits w"
  shows "output_f w = Inr (w\<lparr>cout := cout w @ shown w\<rparr>)"
proof -
  let ?w0 = "w\<lparr>cout := cout w @ [Text ''Array:'', Endl]\<rparr>"
  let ?w1 = "?w0\<lparr>cout := cout ?w0 @ printed ''Array: '' (drop (unat (0 :: size_t)) (snapshot_arr ?w0))\<rparr>"
  let ?w2 = "?w1\<lparr>cout := cout ?w1 @ [Text ''Vector:'', Endl]\<rparr>"
  have a: "output_arr 0 ?w0 = Inr ?w1"
    using assms by (intro output_arr_prints) (simp add: fits_def)
  have v: "output_vec 0 ?w2 =
      Inr (?w2\<lparr>cout := cout ?w2 @ printed ''Vectyor:'' (drop (unat (0 :: size_t)) (snapshot_vec ?w2))\<rparr>)"
    using assms by (intro output_vec_prints) (simp add: fits_def)
  show ?thesis
    unfolding output_f_def a using v
    by (simp add: shown_def snapshot_arr_def snapshot_vec_def)
qed

lemma shown_cout [simp]: "shown (w\<lparr>cout := c\<rparr>) = shown w"
  by (simp add: shown_def snapshot_arr_def snapshot_vec_def)

lemma fits_cout [simp]: "fits (w\<lparr>cout := c\<rparr>) = fits w"
  by (simp add: fits_def)

lemma run_append:
  "run (cs @ ds) w = (case run cs w of Inl e \<Rightarrow> Inl e | Inr w' \<Rightarrow> run ds w')"
  by (induction cs arbitrary: w) (auto split: sum.splits)

lemma concat_replicate_snoc: "concat (replicate (Suc k) s) = concat (replicate k s) @ s"
  by (induction k) auto

subsection \<open>What the calls leave alone\<close>

lemma del_loop_frame:
  "del_loop i w = Inr w' \<Longrightarrow> size_f w' = size_f w \<and> length (arr w') = length (arr w)"
proof (induction i w rule: del_loop.induct)
  case (1 i w)
  let ?w1 = "w\<lparr>arr := (arr w)[unat i := arr w ! unat (i + 1)]\<rparr>"
  let ?w2 = "?w1\<lparr>vector1 := (vector1 ?w1)[unat i := vector1 ?w1 ! unat (i + 1)]\<rparr>"
  show ?case
  proof (cases "i < size_f w - 1")
    case False
    then show ?thesis using "1.prems" by (simp add: del_loop_idle)
  next
    case True
    have ok: "unat i < length (arr w) \<and> unat (i + 1) < length (arr w)"
      "unat i < length (vector1 ?w1) \<and> unat (i + 1) < length (vector1 ?w1)"
      using True "1.prems" by (auto simp: del_loop.simps [of i w] Let_def split: if_splits)
    then have "del_loop (i + 1) ?w2 = Inr w'"
      using True "1.prems" by (simp add: del_loop.simps [of i w] Let_def)
    then have "size_f w' = size_f ?w2 \<and> length (arr w') = length (arr ?w2)"
      by (rule "1.IH" [OF True ok(1) refl ok(2)])
    then show ?thesis by simp
  qed
qed

lemma del_elem_frame:
  assumes "del_elem w = Inr w'"
  shows "size_f w' = size_f w - 1 \<and> length (arr w') = length (arr w)"
proof -
  let ?w1 = "w\<lparr>cout := cout w @ [Text ''Select element to delete.'', Endl]\<rparr>"
  let ?w2 = "case cin ?w1 of [] \<Rightarrow> ?w1 | x # rest \<Rightarrow> ?w1\<lparr>position := x, cin := rest\<rparr>"
  obtain w3 where w3: "del_loop (scast (position ?w2)) ?w2 = Inr w3" "w' = w3\<lparr>size_f := size_f w3 - 1\<rparr>"
    using assms by (auto simp: del_elem_def Let_def split: sum.splits)
  have "size_f ?w2 = size_f w" "length (arr ?w2) = length (arr w)"
    by (simp_all split: list.splits)
  then show ?thesis
    using del_loop_frame [OF w3(1)] w3(2) by simp
qed

lemma output_arr_frame:
  "output_arr i w = Inr w' \<Longrightarrow> \<exists>c. w' = w\<lparr>cout := c\<rparr>"
proof (induction i w rule: output_arr.induct)
  case (1 i w)
  let ?w1 = "w\<lparr>cout := cout w @ [Text ''Array: '', Number (arr w ! unat i)]\<rparr>"
  show ?case
  proof (cases "i < size_f w")
    case False
    then have "w' = w" using "1.prems" by (simp add: output_arr.simps [of i w])
    then have "w' = w\<lparr>cout := cout w\<rparr>" by simp
    then show ?thesis ..
  next
    case True
    then have ok: "unat i < length (arr w)"
      using "1.prems" by (auto simp: output_arr.simps [of i w] split: if_splits)
    then have "output_arr (i + 1) ?w1 = Inr w'"
      using True "1.prems" by (simp add: output_arr.simps [of i w])
    then obtain c where "w' = ?w1\<lparr>cout := c\<rparr>"
      using "1.IH" [OF True ok] by blast
    then have "w' = w\<lparr>cout := c\<rparr>" by simp
    then show ?thesis ..
  qed
qed

lemma output_vec_frame:
  "output_vec i w = Inr w' \<Longrightarrow> \<exists>c. w' = w\<lparr>cout := c\<rparr>"
proof (induction i w rule: output_vec.induct)
  case (1 i w)
  let ?w1 = "w\<lparr>cout := cout w @ [Text ''Vectyor:'', Number (vector1 w ! unat i)]\<rparr>"
  show ?case
  proof (cases "i < size_f w")
    case False
    then have "w' = w" using "1.prems" by (simp add: output_vec.simps [of i w])
    then have "w' = w\<lparr>cout := cout w\<rparr>" by simp
    then show ?thesis ..
  next
    case True
    then have ok: "unat i < length (vector1 w)"
      using "1.prems" by (auto simp: output_vec.simps [of i w] split: if_splits)
    then have "output_vec (i + 1) ?w1 = Inr w'"
      using True "1.prems" by (simp add: output_vec.simps [of i w])
    then obtain c where "w' = ?w1\<lparr>cout := c\<rparr>"
      using "1.IH" [OF True ok] by blast
    then have "w' = w\<lparr>cout := c\<rparr>" by simp
    then show ?thesis ..
  qed
qed

lemma output_f_frame:
  assumes "output_f w = Inr w'"
  shows "\<exists>c. w' = w\<lparr>cout := c\<rparr>"
proof -
  let ?w0 = "w\<lparr>cout := cout w @ [Text ''Array:'', Endl]\<rparr>"
  obtain w1 where w1: "output_arr 0 ?w0 = Inr w1"
    "output_vec 0 (w1\<lparr>cout := cout w1 @ [Text ''Vector:'', Endl]\<rparr>) = Inr w'"
    using assms by (auto simp: output_f_def split: sum.splits)
  obtain c1 where "w1 = ?w0\<lparr>cout := c1\<rparr>"
    using output_arr_frame [OF w1(1)] by blast
  then have a: "w1 = w\<lparr>cout := c1\<rparr>" by simp
  obtain c2 where "w' = (w1\<lparr>cout := cout w1 @ [Text ''Vector:'', Endl]\<rparr>)\<lparr>cout := c2\<rparr>"
    using output_vec_frame [OF w1(2)] by blast
  then have "w' = w\<lparr>cout := c2\<rparr>" by (simp add: a)
  then show ?thesis ..
qed

lemma exec_size:
  assumes "exec c w = Inr w'"
  shows "length (arr w') = length (arr w)
       \<and> size_f w' = (if c = Del_elem then size_f w - 1 else size_f w)"
proof (cases c)
  case Input
  then show ?thesis using assms input_loop_frame [of 0 w w'] by (simp add: input_def)
next
  case Del_elem
  then show ?thesis using assms del_elem_frame [of w w'] by simp
next
  case Output
  then obtain c' where "w' = w\<lparr>cout := c'\<rparr>" using assms output_f_frame by auto
  then show ?thesis using Output by simp
qed

lemma exec_size_ok:
  assumes "size_ok w" and "c = Del_elem \<longrightarrow> size_f w \<noteq> 0" and "exec c w = Inr w'"
  shows "size_ok w'"
  using assms exec_size [OF assms(3)]
  by (auto simp: size_ok_def unat_pred pred_le)

lemma run_size_ok:
  "size_ok w \<Longrightarrow> removals_nonempty cs w \<Longrightarrow> run cs w = Inr w' \<Longrightarrow> size_ok w'"
proof (induction cs arbitrary: w)
  case Nil
  then show ?case by simp
next
  case (Cons c cs)
  from Cons.prems(3) obtain w1 where w1: "exec c w = Inr w1" "run cs w1 = Inr w'"
    by (auto split: sum.splits)
  have "size_ok w1"
    using Cons.prems(1,2) w1(1) by (intro exec_size_ok [of w c w1]) simp_all
  moreover have "removals_nonempty cs w1"
    using Cons.prems(2) w1(1) by simp
  ultimately show ?case using w1(2) by (rule Cons.IH)
qed

subsection \<open>Calls that return\<close>

lemma input_returns:
  assumes "fits w"
  shows "\<exists>w'. input w = Inr w' \<and> fits w'"
proof -
  have le: "unat (size_f w) \<le> length (arr w)" using assms by (simp add: fits_def)
  then obtain w' where w': "input_loop 0 w = Inr w'"
    "vector1 w' = vector1 w @ drop (unat (0 :: size_t)) (take (unat (size_f w)) (arr w'))"
    using input_loop_lockstep [of w 0] by blast
  have "size_f w' = size_f w" "length (arr w') = length (arr w)"
    using input_loop_frame [OF w'(1)] by simp_all
  then have "fits w'"
    using assms w'(2) by (simp add: fits_def)
  then show ?thesis using w'(1) by (simp add: input_def)
qed

lemma del_elem_returns:
  assumes "fits w" "size_f w \<noteq> 0"
  shows "\<exists>w'. del_elem w = Inr w' \<and> fits w'"
proof -
  let ?w1 = "w\<lparr>cout := cout w @ [Text ''Select element to delete.'', Endl]\<rparr>"
  let ?w2 = "case cin ?w1 of [] \<Rightarrow> ?w1 | x # rest \<Rightarrow> ?w1\<lparr>position := x, cin := rest\<rparr>"
  let ?i = "scast (position ?w2) :: size_t"
  have eq: "size_f ?w2 = size_f w" "arr ?w2 = arr w" "vector1 ?w2 = vector1 w"
    by (simp_all split: list.splits)
  have "del_loop ?i ?w2 =
      Inr (?w2\<lparr>arr := shift (unat ?i) (unat (size_f ?w2)) (arr ?w2),
                 vector1 := shift (unat ?i) (unat (size_f ?w2)) (vector1 ?w2)\<rparr>)"
    using assms eq by (intro del_loop_shift) (simp_all add: fits_def)
  then have "del_elem w =
      Inr (?w2\<lparr>arr := shift (unat ?i) (unat (size_f ?w2)) (arr ?w2),
                 vector1 := shift (unat ?i) (unat (size_f ?w2)) (vector1 ?w2),
                 size_f := size_f ?w2 - 1\<rparr>)"
    by (simp add: del_elem_def Let_def)
  moreover have "fits (?w2\<lparr>arr := shift (unat ?i) (unat (size_f ?w2)) (arr ?w2),
                 vector1 := shift (unat ?i) (unat (size_f ?w2)) (vector1 ?w2),
                 size_f := size_f ?w2 - 1\<rparr>)"
    using assms eq by (simp add: fits_def unat_pred pred_le)
  ultimately show ?thesis by blast
qed

lemma exec_returns:
  assumes "fits w" and "c = Del_elem \<longrightarrow> size_f w \<noteq> 0"
  shows "\<exists>w'. exec c w = Inr w' \<and> fits w'"
proof (cases c)
  case Input
  then show ?thesis using input_returns [OF assms(1)] by simp
next
  case Del_elem
  then show ?thesis using del_elem_returns [OF assms(1)] assms(2) by simp
next
  case Output
  then show ?thesis using output_f_shown [OF assms(1)] assms(1) by simp
qed

lemma run_returns:
  "fits w \<Longrightarrow> removals_nonempty cs w \<Longrightarrow> \<exists>w'. run cs w = Inr w' \<and> fits w'"
proof (induction cs arbitrary: w)
  case Nil
  then show ?case by simp
next
  case (Cons c cs)
  obtain w1 where w1: "exec c w = Inr w1" "fits w1"
    using exec_returns [of w c] Cons.prems by auto
  then have "removals_nonempty cs w1"
    using Cons.prems(2) by simp
  with w1(2) obtain w' where "run cs w1 = Inr w'" "fits w'"
    using Cons.IH by blast
  then show ?case using w1(1) by simp
qed

subsection \<open>Evaluation\<close>

text \<open>The equations that run the model on a concrete state.\<close>

lemmas eval_simps = construct_def input_def input_loop.simps del_elem_def del_loop.simps
  output_f_def output_arr.simps output_vec.simps Let_def

section \<open>Removing an element: \<open>del_elem\<close>\<close>

text \<open>
  C1. Let the array and the vector hold at least \<open>size\<close> elements and let the position
  \<open>p\<close> read from the console satisfy \<open>0 \<le> p < size\<close>. Then \<open>del_elem\<close> returns, the size
  has decreased by exactly 1, and the logical contents of the array and of the vector
  are the old logical contents with index \<open>p\<close> deleted: the elements before \<open>p\<close> stay,
  the elements after \<open>p\<close> move down by one index, in their order.
\<close>

theorem del_elem_removes_position:
  assumes "fits w" and "cin w = p # rest" and "0 \<le> sint p" and "sint p < uint (size_f w)"
  shows "\<exists>w'. del_elem w = Inr w'
           \<and> uint (size_f w') = uint (size_f w) - 1
           \<and> snapshot_arr w' =
               take (nat (sint p)) (snapshot_arr w) @ drop (Suc (nat (sint p))) (snapshot_arr w)
           \<and> snapshot_vec w' =
               take (nat (sint p)) (snapshot_vec w) @ drop (Suc (nat (sint p))) (snapshot_vec w)"
proof -
  let ?n = "unat (size_f w)" and ?k = "nat (sint p)"
  have k: "unat (scast p :: size_t) = ?k"
    using assms(3) by (rule scast_nonneg)
  have "nat (sint p) < nat (uint (size_f w))"
    using assms(3,4) by linarith
  then have kn: "?k < ?n"
    by (simp only: unat_eq_nat_uint)
  then have nz: "size_f w \<noteq> 0"
    by (auto simp: unat_eq_zero)
  have n1: "unat (size_f w - 1) = ?n - 1"
    using nz by (rule unat_pred)
  have le: "?n \<le> length (arr w)" "?n \<le> length (vector1 w)"
    using assms(1) by (simp_all add: fits_def)
  have tk: "take ?k (take ?n xs) = take ?k xs" for xs :: "cint list"
    using kn by (simp add: min_def)
  have "uint (size_f w - 1) = uint (size_f w) - 1"
    using nz by (rule uint_pred)
  then show ?thesis
    using del_elem_shift [OF nz assms(1,2)] kn le
    by (simp add: k n1 snapshot_arr_def snapshot_vec_def take_shift tk)
qed

text \<open>Scenario 2 of the specification: removing index 3 (the value 1).\<close>

theorem del_elem_removes_position_witness:
  "fits (populated [3, 8]) \<and> cin (populated [3, 8]) = 3 # [8] \<and> 0 \<le> sint (3 :: cint)
   \<and> sint (3 :: cint) < uint (size_f (populated [3, 8]))
   \<and> (\<exists>w'. del_elem (populated [3, 8]) = Inr w' \<and> uint (size_f w') = 9
          \<and> snapshot_arr w' = [5, 3, 8, 9, 2, 7, 4, 6, 0]
          \<and> snapshot_vec w' = [5, 3, 8, 9, 2, 7, 4, 6, 0])"
proof -
  have h: "fits (populated [3, 8])" "cin (populated [3, 8]) = 3 # [8]" "0 \<le> sint (3 :: cint)"
    "sint (3 :: cint) < uint (size_f (populated [3, 8]))"
    by (simp_all add: populated_def fits_def)
  show ?thesis
    using h del_elem_removes_position [OF h]
    by (simp add: populated_def snapshot_arr_def snapshot_vec_def)
qed

text \<open>
  C2 does not hold: a position outside \<open>[0, size)\<close> is not rejected. With ten elements
  and the position 12, \<open>del_elem\<close> returns normally and the size has become 9.
\<close>

theorem del_elem_accepts_invalid_position:
  "del_elem (populated [12]) =
     Inr \<lparr>vector1 = [5, 3, 8, 1, 9, 2, 7, 4, 6, 0], position = 12, size_f = 9,
          arr = [5, 3, 8, 1, 9, 2, 7, 4, 6, 0], cin = [],
          cout = [Text ''Select element to delete.'', Endl]\<rparr>"
  by (simp add: populated_def eval_simps)

text \<open>
  C2, as the code has it. \<open>del_elem\<close> does not validate the position and has no error
  for it. On a non-empty sequence within the capacity of the array (an array of fewer
  than \<open>2^61\<close> elements, as every C++ array of \<open>int\<close> is), a position \<open>p < 0\<close> or
  \<open>p \<ge> size\<close> makes \<open>del_elem\<close> return normally: the loop body is never entered, so no
  element of the array or of the vector is read or written, but the size is decremented
  by 1.
\<close>

theorem del_elem_out_of_range:
  assumes "size_f w \<noteq> 0" and "unat (size_f w) \<le> length (arr w)" and "length (arr w) < 2 ^ 61"
    and "cin w = p # rest" and "sint p < 0 \<or> uint (size_f w) \<le> sint p"
  shows "del_elem w =
           Inr (w\<lparr>cout := cout w @ [Text ''Select element to delete.'', Endl],
                  position := p, cin := rest, size_f := size_f w - 1\<rparr>)"
proof -
  have "sint p < 0 \<or> uint (size_f w) - 1 \<le> sint p"
    using assms(5) by auto
  with assms(1,2,3) have "\<not> scast p < size_f w - 1"
    by (rule guard_false_outside)
  with assms(4) show ?thesis by (rule del_elem_idle)
qed

theorem del_elem_out_of_range_witness:
  "del_elem (populated [- 1]) =
       Inr \<lparr>vector1 = [5, 3, 8, 1, 9, 2, 7, 4, 6, 0], position = - 1, size_f = 9,
            arr = [5, 3, 8, 1, 9, 2, 7, 4, 6, 0], cin = [],
            cout = [Text ''Select element to delete.'', Endl]\<rparr>
  \<and> del_elem (populated [10]) =
       Inr \<lparr>vector1 = [5, 3, 8, 1, 9, 2, 7, 4, 6, 0], position = 10, size_f = 9,
            arr = [5, 3, 8, 1, 9, 2, 7, 4, 6, 0], cin = [],
            cout = [Text ''Select element to delete.'', Endl]\<rparr>"
  using del_elem_out_of_range [of "populated [- 1]" "- 1" "[]"]
    del_elem_out_of_range [of "populated [10]" 10 "[]"]
  by (simp add: populated_def)

text \<open>
  C3 does not hold in its last part. After \<open>input\<close> and ten removals, each of the then
  last element, the sequence is empty; an eleventh \<open>del_elem\<close> with the position \<open>-1\<close>
  does not fail: it returns normally and leaves the size at \<open>2^64 - 1\<close>.
\<close>

theorem removal_from_empty_returns:
  "run [Input, Del_elem, Del_elem, Del_elem, Del_elem, Del_elem, Del_elem, Del_elem,
        Del_elem, Del_elem, Del_elem, Del_elem]
     (construct [0, 0, 0, 0, 0, 0, 0, 0, 0, 0]
        [5, 3, 8, 1, 9, 2, 7, 4, 6, 0, 9, 8, 7, 6, 5, 4, 3, 2, 1, 0, - 1]) =
   Inr \<lparr>vector1 = [5, 3, 8, 1, 9, 2, 7, 4, 6, 0], position = - 1,
        size_f = 18446744073709551615, arr = [5, 3, 8, 1, 9, 2, 7, 4, 6, 0], cin = [],
        cout = [Text ''Select element to delete.'', Endl,
                Text ''Select element to delete.'', Endl,
                Text ''Select element to delete.'', Endl,
                Text ''Select element to delete.'', Endl,
                Text ''Select element to delete.'', Endl,
                Text ''Select element to delete.'', Endl,
                Text ''Select element to delete.'', Endl,
                Text ''Select element to delete.'', Endl,
                Text ''Select element to delete.'', Endl,
                Text ''Select element to delete.'', Endl,
                Text ''Select element to delete.'', Endl]\<rparr>"
  by (simp add: eval_simps)

text \<open>
  C3, as the code has it. Starting from a sequence of length \<open>L\<close> that fits its
  containers, with \<open>L\<close> positions on the console of which the \<open>k\<close>-th is valid for the
  length \<open>L - k\<close> reached by then, every prefix of \<open>k \<le> L\<close> calls of \<open>del_elem\<close> returns and
  leaves the length \<open>L - k\<close>: each call removes exactly one element, and after \<open>L\<close> calls
  the length is 0. (The code has no \<open>InvalidPosition\<close>; nothing is stated about a
  further call.)
\<close>

theorem removals_down_to_empty:
  assumes "fits w" and "cin w = ps @ rest" and "length ps = unat (size_f w)"
    and "\<forall>k < length ps. 0 \<le> sint (ps ! k) \<and> sint (ps ! k) < int (length ps - k)"
  shows "\<forall>k \<le> length ps. \<exists>w'. run (replicate k Del_elem) w = Inr w'
           \<and> unat (size_f w') = length ps - k \<and> cin w' = drop k ps @ rest"
proof -
  have "k \<le> length ps \<Longrightarrow> \<exists>w'. run (replicate k Del_elem) w = Inr w' \<and> fits w'
           \<and> unat (size_f w') = length ps - k \<and> cin w' = drop k ps @ rest" for k
  proof (induction k)
    case 0
    then show ?case using assms(1,2,3) by simp
  next
    case (Suc k)
    then obtain wk where wk: "run (replicate k Del_elem) w = Inr wk" "fits wk"
      "unat (size_f wk) = length ps - k" "cin wk = drop k ps @ rest"
      by auto
    have k: "k < length ps" using Suc.prems by simp
    then have c: "cin wk = ps ! k # (drop (Suc k) ps @ rest)"
      using wk(4) by (simp add: Cons_nth_drop_Suc)
    have p: "0 \<le> sint (ps ! k)" "sint (ps ! k) < int (length ps - k)"
      using assms(4) k by simp_all
    have "uint (size_f wk) = int (length ps - k)"
      using wk(3) by (metis uint_nat)
    then have "sint (ps ! k) < uint (size_f wk)"
      using p(2) by simp
    from del_elem_valid_step [OF wk(2) c p(1) this]
    obtain w' where w': "del_elem wk = Inr w'" "fits w'"
      "unat (size_f w') = unat (size_f wk) - 1" "cin w' = drop (Suc k) ps @ rest"
      by blast
    have "run (replicate (Suc k) Del_elem) w = run (replicate k Del_elem @ [Del_elem]) w"
      by (simp only: replicate_append_same) simp
    also have "\<dots> = Inr w'"
      using wk(1) w'(1) by (simp add: run_append)
    finally show ?case
      using w' wk(3) by simp
  qed
  then show ?thesis by blast
qed

theorem removals_down_to_empty_witness:
  "\<exists>w'. run (replicate 2 Del_elem) (pair_world [1, 0, 5]) = Inr w'
         \<and> unat (size_f w') = 0 \<and> cin w' = [5]"
proof -
  have h: "fits (pair_world [1, 0, 5])" "cin (pair_world [1, 0, 5]) = [1, 0] @ [5]"
    "length [1, 0 :: cint] = unat (size_f (pair_world [1, 0, 5]))"
    by (simp_all add: pair_world_def fits_def)
  have v: "\<forall>k < length [1, 0 :: cint].
             0 \<le> sint ([1, 0 :: cint] ! k) \<and> sint ([1, 0 :: cint] ! k) < int (length [1, 0 :: cint] - k)"
    by (simp add: numeral_2_eq_2 less_Suc_eq)
  show ?thesis
    using removals_down_to_empty [OF h v, rule_format, of 2] by simp
qed

text \<open>
  C7. On a non-empty sequence, when the position read is \<open>size - 1\<close>, the loop body is
  never entered: \<open>del_elem\<close> returns with the array and the vector untouched and the size
  decremented by 1; apart from that only the prompt was printed and the position read.
\<close>

theorem del_elem_last_position:
  assumes "size_f w \<noteq> 0" and "cin w = p # rest" and "sint p = uint (size_f w) - 1"
  shows "del_elem w =
           Inr (w\<lparr>cout := cout w @ [Text ''Select element to delete.'', Endl],
                  position := p, cin := rest, size_f := size_f w - 1\<rparr>)"
proof -
  have u: "uint (size_f w - 1) = uint (size_f w) - 1"
    using assms(1) by (rule uint_pred)
  have "0 \<le> uint (size_f w - 1)" by (rule uint_nonnegative)
  then have "0 \<le> sint p" using assms(3) u by simp
  then have "unat (scast p :: size_t) = nat (sint p)" by (rule scast_nonneg)
  then have "unat (scast p :: size_t) = unat (size_f w - 1)"
    using assms(3) u by (simp only: unat_eq_nat_uint)
  then have "\<not> scast p < size_f w - 1"
    by (simp add: word_less_nat_alt)
  with assms(2) show ?thesis by (rule del_elem_idle)
qed

theorem del_elem_last_position_witness:
  "size_f (populated [9]) \<noteq> 0 \<and> sint (9 :: cint) = uint (size_f (populated [9])) - 1
   \<and> del_elem (populated [9]) =
       Inr \<lparr>vector1 = [5, 3, 8, 1, 9, 2, 7, 4, 6, 0], position = 9, size_f = 9,
            arr = [5, 3, 8, 1, 9, 2, 7, 4, 6, 0], cin = [],
            cout = [Text ''Select element to delete.'', Endl]\<rparr>"
  using del_elem_last_position [of "populated [9]" 9 "[]"]
  by (simp add: populated_def)

text \<open>
  C9 describes the loop guard \<open>i < size - 1\<close> as keeping every position outside
  \<open>[0, size - 1)\<close> away from the containers. On the empty sequence the guard is
  \<open>i < 2^64 - 1\<close>: after \<open>input\<close> and ten removals of the last element, an eleventh
  \<open>del_elem\<close> with the position 0 moves nine elements of the array and of the vector
  down by one and then reads \<open>arr[10]\<close>, past the end of the ten-element array; the
  size is not decremented.
\<close>

theorem del_elem_on_empty_overruns:
  "run [Input, Del_elem, Del_elem, Del_elem, Del_elem, Del_elem, Del_elem, Del_elem,
        Del_elem, Del_elem, Del_elem, Del_elem]
     (construct [0, 0, 0, 0, 0, 0, 0, 0, 0, 0]
        [5, 3, 8, 1, 9, 2, 7, 4, 6, 0, 9, 8, 7, 6, 5, 4, 3, 2, 1, 0, 0]) =
   Inl (ArrayOutOfBounds,
        \<lparr>vector1 = [3, 8, 1, 9, 2, 7, 4, 6, 0, 0], position = 0, size_f = 0,
         arr = [3, 8, 1, 9, 2, 7, 4, 6, 0, 0], cin = [],
         cout = [Text ''Select element to delete.'', Endl,
                 Text ''Select element to delete.'', Endl,
                 Text ''Select element to delete.'', Endl,
                 Text ''Select element to delete.'', Endl,
                 Text ''Select element to delete.'', Endl,
                 Text ''Select element to delete.'', Endl,
                 Text ''Select element to delete.'', Endl,
                 Text ''Select element to delete.'', Endl,
                 Text ''Select element to delete.'', Endl,
                 Text ''Select element to delete.'', Endl,
                 Text ''Select element to delete.'', Endl]\<rparr>)"
  by code_simp

section \<open>Filling and showing: \<open>input\<close> and \<open>output\<close>\<close>

text \<open>
  C4 does not hold for a count below the size: \<open>input\<close> has no count parameter. With
  three integers on the console and a ten-element array it still runs ten times; the
  size stays 10 and the logical contents are ten elements, not the three that were
  entered.
\<close>

theorem input_ignores_count:
  "input (construct [0, 0, 0, 0, 0, 0, 0, 0, 0, 0] [1, 2, 3]) =
     Inr \<lparr>vector1 = [1, 2, 3, 0, 0, 0, 0, 0, 0, 0], position = 0, size_f = 10,
          arr = [1, 2, 3, 0, 0, 0, 0, 0, 0, 0], cin = [], cout = []\<rparr>"
  by (simp add: eval_simps)

text \<open>
  C4, as the code has it. On an object whose vector is still empty, with \<open>size\<close> within
  the capacity of the array and exactly \<open>size\<close> integers \<open>src\<close> next on the console (the
  count is always the size), \<open>input\<close> returns, the size is unchanged and equals the
  count, the logical contents of the array and of the vector are \<open>src\<close> in order, and
  \<open>output\<close> called next prints exactly \<open>src\<close> for the array and \<open>src\<close> for the vector.
\<close>

theorem input_then_output:
  assumes "vector1 w = []" and "unat (size_f w) \<le> length (arr w)"
    and "cin w = src @ rest" and "length src = unat (size_f w)"
  shows "\<exists>w'. input w = Inr w'
           \<and> size_f w' = size_f w
           \<and> snapshot_arr w' = src \<and> snapshot_vec w' = src
           \<and> output_f w' =
               Inr (w'\<lparr>cout := cout w @ [Text ''Array:'', Endl] @ printed ''Array: '' src
                                     @ [Text ''Vector:'', Endl] @ printed ''Vectyor:'' src\<rparr>)"
proof -
  let ?w' = "w\<lparr>arr := src @ drop (length src) (arr w), cin := rest, vector1 := src\<rparr>"
  have "unat (0 :: size_t) + length src = min (unat (size_f w)) (length (arr w))"
    using assms(2,4) by simp
  from input_loop_fill [OF assms(3) this]
  have i: "input w = Inr ?w'"
    using assms(1,2) by (simp add: input_def Let_def)
  have s: "snapshot_arr ?w' = src" "snapshot_vec ?w' = src"
    using assms(4) by (simp_all add: snapshot_arr_def snapshot_vec_def)
  have "fits ?w'"
    using assms(2,4) by (simp add: fits_def)
  then have "output_f ?w' = Inr (?w'\<lparr>cout := cout ?w' @ shown ?w'\<rparr>)"
    by (rule output_f_shown)
  then show ?thesis
    using i s by (simp add: shown_def)
qed

text \<open>Scenario 1 of the specification.\<close>

theorem input_then_output_witness:
  "\<exists>w'. input (construct [0, 0, 0, 0, 0, 0, 0, 0, 0, 0] [5, 3, 8, 1, 9, 2, 7, 4, 6, 0, 3]) = Inr w'
         \<and> size_f w' = 10
         \<and> snapshot_arr w' = [5, 3, 8, 1, 9, 2, 7, 4, 6, 0]
         \<and> snapshot_vec w' = [5, 3, 8, 1, 9, 2, 7, 4, 6, 0]
         \<and> output_f w' =
             Inr (w'\<lparr>cout := [Text ''Array:'', Endl]
                               @ printed ''Array: '' [5, 3, 8, 1, 9, 2, 7, 4, 6, 0]
                               @ [Text ''Vector:'', Endl]
                               @ printed ''Vectyor:'' [5, 3, 8, 1, 9, 2, 7, 4, 6, 0]\<rparr>)"
  using input_then_output [of "construct [0, 0, 0, 0, 0, 0, 0, 0, 0, 0] [5, 3, 8, 1, 9, 2, 7, 4, 6, 0, 3]"
      "[5, 3, 8, 1, 9, 2, 7, 4, 6, 0]" "[3]"]
  by (simp add: construct_def)

text \<open>
  C5 does not hold: nothing is checked before writing. With a three-element array and
  the size 10, \<open>input\<close> stores the first three integers in the array and in the vector
  and then writes \<open>arr[3]\<close>, past the end of the array.
\<close>

theorem input_partial_population:
  "input (construct [0, 0, 0] [1, 2, 3, 4, 5, 6, 7, 8, 9, 10]) =
     Inl (ArrayOutOfBounds,
          \<lparr>vector1 = [1, 2, 3], position = 0, size_f = 10, arr = [1, 2, 3],
           cin = [4, 5, 6, 7, 8, 9, 10], cout = []\<rparr>)"
  by (simp add: eval_simps)

text \<open>
  C5, as the code has it. \<open>input\<close> has no capacity check and no \<open>CapacityExceeded\<close>. When
  the size exceeds the capacity of the array and the console holds enough integers,
  the first \<open>capacity\<close> integers are stored in the array and appended to the vector, and
  the call then leaves the array at index \<open>capacity\<close>.
\<close>

theorem input_beyond_capacity:
  assumes "length (arr w) < unat (size_f w)"
    and "cin w = src @ rest" and "length src = length (arr w)"
  shows "input w = Inl (ArrayOutOfBounds, w\<lparr>arr := src, cin := rest, vector1 := vector1 w @ src\<rparr>)"
proof -
  have "unat (0 :: size_t) + length src = min (unat (size_f w)) (length (arr w))"
    using assms(1,3) by simp
  from input_loop_fill [OF assms(2) this]
  show ?thesis
    using assms(1,3) by (simp add: input_def Let_def)
qed

theorem input_beyond_capacity_witness:
  "input (construct [0, 0] [7, 8, 9]) =
     Inl (ArrayOutOfBounds,
          \<lparr>vector1 = [7, 8], position = 0, size_f = 10, arr = [7, 8], cin = [9], cout = []\<rparr>)"
  using input_beyond_capacity [of "construct [0, 0] [7, 8, 9]" "[7, 8]" "[9]"]
  by (simp add: construct_def)

text \<open>
  C8. When the array and the vector hold at least \<open>size\<close> elements, \<open>output\<close> returns and
  changes nothing but \<open>cout\<close>, to which it appends the two headlines and the logical
  contents of the array and of the vector in order. Called \<open>k\<close> times in a row it
  appends the same text \<open>k\<close> times.
\<close>

theorem output_repeatable:
  assumes "fits w"
  shows "run (replicate k Output) w = Inr (w\<lparr>cout := cout w @ concat (replicate k (shown w))\<rparr>)"
proof (induction k)
  case 0
  show ?case by simp
next
  case (Suc k)
  let ?wk = "w\<lparr>cout := cout w @ concat (replicate k (shown w))\<rparr>"
  have "run (replicate (Suc k) Output) w = run (replicate k Output @ [Output]) w"
    by (simp only: replicate_append_same) simp
  also have "\<dots> = output_f ?wk"
    by (simp add: run_append Suc.IH split: sum.splits)
  also have "\<dots> = Inr (?wk\<lparr>cout := cout ?wk @ shown ?wk\<rparr>)"
    using assms by (intro output_f_shown) simp
  also have "\<dots> = Inr (w\<lparr>cout := cout w @ concat (replicate (Suc k) (shown w))\<rparr>)"
    by (simp only: concat_replicate_snoc) simp
  finally show ?case .
qed

theorem output_repeatable_witness:
  "fits (populated [])
   \<and> run (replicate 2 Output) (populated []) =
       Inr ((populated [])\<lparr>cout := cout (populated [])
                                   @ concat (replicate 2 (shown (populated [])))\<rparr>)"
proof -
  have h: "fits (populated [])" by (simp add: populated_def fits_def)
  show ?thesis using h output_repeatable [OF h, of 2] by simp
qed

section \<open>Invariants\<close>

text \<open>
  C6 does not hold for every sequence of calls: \<open>del_elem\<close> on the empty sequence with
  the position \<open>-1\<close> returns normally with the size \<open>2^64 - 1\<close>, far above the capacity
  10.
\<close>

theorem size_exceeds_capacity:
  "size_ok (drained [- 1])
   \<and> del_elem (drained [- 1]) =
       Inr \<lparr>vector1 = [5, 3, 8, 1, 9, 2, 7, 4, 6, 0], position = - 1,
            size_f = 18446744073709551615, arr = [5, 3, 8, 1, 9, 2, 7, 4, 6, 0], cin = [],
            cout = [Text ''Select element to delete.'', Endl]\<rparr>
   \<and> \<not> size_ok \<lparr>vector1 = [5, 3, 8, 1, 9, 2, 7, 4, 6, 0], position = - 1,
            size_f = 18446744073709551615, arr = [5, 3, 8, 1, 9, 2, 7, 4, 6, 0], cin = [],
            cout = [Text ''Select element to delete.'', Endl]\<rparr>"
  by (simp add: drained_def size_ok_def eval_simps)

text \<open>
  C6, as the code has it. \<open>0 \<le> size \<le> capacity\<close> holds at construction next to an array
  of at least ten elements, and every sequence of calls that never calls \<open>del_elem\<close> on
  the empty sequence preserves it; from a state whose containers hold at least \<open>size\<close>
  elements every such sequence returns. The size is changed by \<open>del_elem\<close> only, which
  decrements it by exactly 1; \<open>input\<close> and \<open>output\<close> leave it as it is.
\<close>

theorem size_within_capacity:
  "(10 \<le> length a \<longrightarrow> size_ok (construct a src))
   \<and> (size_ok w \<and> removals_nonempty cs w \<and> run cs w = Inr w' \<longrightarrow> size_ok w')
   \<and> (fits w \<and> removals_nonempty cs w \<longrightarrow> (\<exists>v. run cs w = Inr v \<and> size_ok v))
   \<and> (exec c w = Inr w' \<longrightarrow> size_f w' = (if c = Del_elem then size_f w - 1 else size_f w))"
proof (intro conjI impI)
  assume "10 \<le> length a"
  then show "size_ok (construct a src)" by (simp add: size_ok_def construct_def)
next
  assume "size_ok w \<and> removals_nonempty cs w \<and> run cs w = Inr w'"
  then show "size_ok w'" using run_size_ok by blast
next
  assume "fits w \<and> removals_nonempty cs w"
  then obtain v where "run cs w = Inr v" "fits v" using run_returns by blast
  then show "\<exists>v. run cs w = Inr v \<and> size_ok v" by (auto simp: fits_def size_ok_def)
next
  assume "exec c w = Inr w'"
  then show "size_f w' = (if c = Del_elem then size_f w - 1 else size_f w)"
    using exec_size by blast
qed

theorem size_within_capacity_witness:
  "size_ok (construct [0, 0, 0, 0, 0, 0, 0, 0, 0, 0] [])
   \<and> size_ok \<lparr>vector1 = [5, 3, 8, 9, 2, 7, 4, 6, 0, 0], position = 3, size_f = 9,
            arr = [5, 3, 8, 9, 2, 7, 4, 6, 0, 0], cin = [],
            cout = [Text ''Select element to delete.'', Endl]\<rparr>
   \<and> (\<exists>v. run [Del_elem] (populated [3]) = Inr v \<and> size_ok v)"
proof -
  let ?w' = "\<lparr>vector1 = [5, 3, 8, 9, 2, 7, 4, 6, 0, 0], position = 3, size_f = 9,
            arr = [5, 3, 8, 9, 2, 7, 4, 6, 0, 0], cin = [],
            cout = [Text ''Select element to delete.'', Endl]\<rparr>"
  have h: "10 \<le> length [0, 0, 0, 0, 0, 0, 0, 0, 0, 0 :: cint]"
    "size_ok (populated [3])" "fits (populated [3])"
    "removals_nonempty [Del_elem] (populated [3])"
    "run [Del_elem] (populated [3]) = Inr ?w'"
    "exec Del_elem (populated [3]) = Inr ?w'"
    by (simp_all add: populated_def size_ok_def fits_def eval_simps)
  show ?thesis
    using h size_within_capacity [of "[0, 0, 0, 0, 0, 0, 0, 0, 0, 0]" "[]" "populated [3]"
        "[Del_elem]" ?w' Del_elem]
    by simp
qed

text \<open>
  C10. After \<open>input\<close> on an object whose vector is still empty (with \<open>size\<close> within the
  capacity of the array), the array and the vector agree on every index below the
  size. \<open>del_elem\<close> with a position in \<open>[0, size)\<close> preserves that agreement, and both
  containers keep holding at least \<open>size\<close> elements.
\<close>

theorem stores_in_lockstep:
  "(vector1 w = [] \<and> unat (size_f w) \<le> length (arr w)
      \<longrightarrow> (\<exists>w'. input w = Inr w' \<and> fits w' \<and> lockstep w'))
   \<and> (fits v \<and> lockstep v \<and> cin v = p # rest \<and> 0 \<le> sint p \<and> sint p < uint (size_f v)
      \<longrightarrow> (\<exists>v'. del_elem v = Inr v' \<and> fits v' \<and> lockstep v'))"
proof (intro conjI impI)
  assume a: "vector1 w = [] \<and> unat (size_f w) \<le> length (arr w)"
  then obtain w' where w': "input_loop 0 w = Inr w'"
    "vector1 w' = vector1 w @ drop (unat (0 :: size_t)) (take (unat (size_f w)) (arr w'))"
    using input_loop_lockstep [of w 0] by blast
  have fr: "size_f w' = size_f w" "length (arr w') = length (arr w)"
    using input_loop_frame [OF w'(1)] by simp_all
  have v: "vector1 w' = take (unat (size_f w')) (arr w')"
    using w'(2) a fr by simp
  have "fits w'"
    using a fr v by (simp add: fits_def)
  moreover have "lockstep w'"
    by (simp add: lockstep_def v)
  ultimately show "\<exists>w'. input w = Inr w' \<and> fits w' \<and> lockstep w'"
    using w'(1) by (auto simp: input_def)
next
  assume a: "fits v \<and> lockstep v \<and> cin v = p # rest \<and> 0 \<le> sint p \<and> sint p < uint (size_f v)"
  then have "uint (size_f v) \<noteq> 0" by linarith
  then have nz: "size_f v \<noteq> 0" by (simp add: uint_0_iff)
  let ?w' = "v\<lparr>cout := cout v @ [Text ''Select element to delete.'', Endl],
               position := p, cin := rest,
               arr := shift (unat (scast p :: size_t)) (unat (size_f v)) (arr v),
               vector1 := shift (unat (scast p :: size_t)) (unat (size_f v)) (vector1 v),
               size_f := size_f v - 1\<rparr>"
  have d: "del_elem v = Inr ?w'"
    using nz a by (intro del_elem_shift) simp_all
  have "fits ?w'"
    using a nz by (simp add: fits_def unat_pred pred_le)
  moreover have "lockstep ?w'"
    using lockstep_shift [of v "unat (scast p :: size_t)"] a nz
    by (simp add: lockstep_def unat_pred)
  ultimately show "\<exists>v'. del_elem v = Inr v' \<and> fits v' \<and> lockstep v'"
    using d by blast
qed

theorem stores_in_lockstep_witness:
  "(\<exists>w'. input (construct [0, 0, 0, 0, 0, 0, 0, 0, 0, 0] [5, 3, 8, 1, 9, 2, 7, 4, 6, 0]) = Inr w'
          \<and> fits w' \<and> lockstep w')
   \<and> (\<exists>v'. del_elem (populated [3]) = Inr v' \<and> fits v' \<and> lockstep v')"
  using stores_in_lockstep [of "construct [0, 0, 0, 0, 0, 0, 0, 0, 0, 0] [5, 3, 8, 1, 9, 2, 7, 4, 6, 0]"
      "populated [3]" 3 "[]"]
  by (simp add: construct_def populated_def fits_def lockstep_def)

end
